theory Spec2Isabelle
  imports Main
begin

section \<open>Strings as Python sees them\<close>

text \<open>
  The analyser of \<^verbatim>\<open>fallaoi-cpp.py\<close> works on Python strings. A string is a list of
  characters; a character is a code point below 256, read as Latin-1. The character
  classes are those of \<^verbatim>\<open>str.isspace\<close> (used by \<^verbatim>\<open>strip\<close>, \<^verbatim>\<open>lstrip\<close> and the
  regular expression class \<^verbatim>\<open>\s\<close>) and of the regular expression class \<^verbatim>\<open>\w\<close>
  (alphanumeric or underscore) on that range.
\<close>

definition is_space :: "char \<Rightarrow> bool" where
  "is_space c = (c \<in> set [CHR 0x09, CHR 0x0A, CHR 0x0B, CHR 0x0C, CHR 0x0D,
                           CHR 0x1C, CHR 0x1D, CHR 0x1E, CHR 0x1F, CHR 0x20,
                           CHR 0x85, CHR 0xA0])"

definition is_word :: "char \<Rightarrow> bool" where
  "is_word c = (let n = (of_char c :: nat) in
      (48 \<le> n \<and> n \<le> 57) \<or> (65 \<le> n \<and> n \<le> 90) \<or> n = 95 \<or> (97 \<le> n \<and> n \<le> 122)
      \<or> n = 170 \<or> n = 178 \<or> n = 179 \<or> n = 181 \<or> n = 185 \<or> n = 186
      \<or> (188 \<le> n \<and> n \<le> 190) \<or> (192 \<le> n \<and> n \<le> 214)
      \<or> (216 \<le> n \<and> n \<le> 246) \<or> (248 \<le> n \<and> n \<le> 255))"

definition lstrip :: "string \<Rightarrow> string" where
  "lstrip s = dropWhile is_space s"

definition rstrip :: "string \<Rightarrow> string" where
  "rstrip s = rev (dropWhile is_space (rev s))"

definition strip :: "string \<Rightarrow> string" where
  "strip s = rstrip (lstrip s)"

definition startswith :: "string \<Rightarrow> string \<Rightarrow> bool" where
  "startswith s p = (take (length p) s = p)"

definition endswith :: "string \<Rightarrow> string \<Rightarrow> bool" where
  "endswith s p = (length p \<le> length s \<and> drop (length s - length p) s = p)"

text \<open>\<^verbatim>\<open>p in s\<close>: \<open>p\<close> occurs in \<open>s\<close> as a substring.\<close>

fun contains :: "string \<Rightarrow> string \<Rightarrow> bool" where
  "contains [] p = (p = [])"
| "contains (c # cs) p = (startswith (c # cs) p \<or> contains cs p)"

text \<open>\<^verbatim>\<open>s.split('\n')\<close>: always at least one piece; \<open>cur\<close> is the piece being read.\<close>

fun split_acc :: "string \<Rightarrow> string \<Rightarrow> string list" where
  "split_acc cur [] = [cur]"
| "split_acc cur (c # cs) =
     (if c = CHR 0x0A then cur # split_acc [] cs else split_acc (cur @ [c]) cs)"

definition split_lines :: "string \<Rightarrow> string list" where
  "split_lines s = split_acc [] s"

text \<open>\<^verbatim>\<open>sep.join(xs)\<close>.\<close>

fun join :: "string \<Rightarrow> string list \<Rightarrow> string" where
  "join sep [] = []"
| "join sep [x] = x"
| "join sep (x # y # ys) = x @ sep @ join sep (y # ys)"

text \<open>\<^verbatim>\<open>xs[a:b]\<close> for indices that are not negative.\<close>

definition slice :: "nat \<Rightarrow> nat \<Rightarrow> 'a list \<Rightarrow> 'a list" where
  "slice a b xs = take (b - a) (drop a xs)"

subsection \<open>The function-signature pattern\<close>

text \<open>
  \<^verbatim>\<open>re.search(r'\w+\s*\([^)]*\)\s*$', s)\<close>. A match starting at some position reads a
  non-empty run of word characters, a run of white space, an opening parenthesis, characters
  other than a closing parenthesis, a closing parenthesis and white space up to the end of
  the string. Word characters, white space and the parenthesis are disjoint classes, so
  the runs are the maximal ones; \<^verbatim>\<open>\s*$\<close> holds exactly when the rest is white space
  (the class contains the newline that \<^verbatim>\<open>$\<close> may leave unread).
\<close>

definition match_paren :: "string \<Rightarrow> bool" where
  "match_paren t = (case t of
       [] \<Rightarrow> False
     | c # r \<Rightarrow> c = CHR ''('' \<and>
         (case dropWhile (\<lambda>x. x \<noteq> CHR '')'') r of
            [] \<Rightarrow> False
          | _ # r2 \<Rightarrow> list_all is_space r2))"

definition match_here :: "string \<Rightarrow> bool" where
  "match_here t = (takeWhile is_word t \<noteq> [] \<and>
      match_paren (dropWhile is_space (dropWhile is_word t)))"

fun signature_search :: "string \<Rightarrow> bool" where
  "signature_search [] = False"
| "signature_search (c # cs) = (match_here (c # cs) \<or> signature_search cs)"

section \<open>Fold regions\<close>

text \<open>
  A region is the tuple \<^verbatim>\<open>(start_type, start_line, end_line)\<close> of the source; the type
  is one of the strings \<^verbatim>\<open>'class'\<close>, \<^verbatim>\<open>'function'\<close>, \<^verbatim>\<open>'block'\<close>. Lines count from 1.
\<close>

datatype kind = Class | Function | Block

type_synonym region = "kind \<times> nat \<times> nat"

definition start_line :: "region \<Rightarrow> nat" where
  "start_line r = fst (snd r)"

definition end_line :: "region \<Rightarrow> nat" where
  "end_line r = snd (snd r)"

subsection \<open>The indentation grammar\<close>

text \<open>
  An entry of \<^verbatim>\<open>indent_stack\<close> is \<^verbatim>\<open>(type, line, indent)\<close>. The Python list grows at
  its end; here the head of the list is the top of the stack, so the source's list is the
  reverse of the model's.
\<close>

type_synonym indent_entry = "kind \<times> nat \<times> nat"

definition indent_of :: "string \<Rightarrow> nat" where
  "indent_of line = length line - length (lstrip line)"

text \<open>
  The \<^verbatim>\<open>while indent_stack and indent_stack[-1][2] >= current_indent\<close> loop at line
  \<open>i\<close>: pops entries and appends a region for each popped entry that started before \<open>i\<close>.
\<close>

fun pop_closed :: "nat \<Rightarrow> nat \<Rightarrow> indent_entry list \<Rightarrow> region list
    \<Rightarrow> indent_entry list \<times> region list" where
  "pop_closed i cur [] regs = ([], regs)"
| "pop_closed i cur ((t, s, ind) # st) regs =
     (if cur \<le> ind
      then pop_closed i cur st (if s < i then regs @ [(t, s, i)] else regs)
      else ((t, s, ind) # st, regs))"

definition py_line :: "nat \<Rightarrow> string \<Rightarrow> indent_entry list \<times> region list
    \<Rightarrow> indent_entry list \<times> region list" where
  "py_line i line sr =
     (let stripped = strip line; st = fst sr; regs = snd sr in
      if startswith stripped ''class '' then ((Class, i, indent_of line) # st, regs)
      else if startswith stripped ''def '' then ((Function, i, indent_of line) # st, regs)
      else if endswith stripped '':'' \<and> \<not> startswith stripped ''#''
      then (let current_indent = indent_of line;
                pr = pop_closed i current_indent st regs
            in ((Block, i, current_indent) # fst pr, snd pr))
      else (st, regs))"

text \<open>\<^verbatim>\<open>for i, line in enumerate(lines, 1)\<close>, from line number \<open>i\<close> on.\<close>

fun py_loop :: "nat \<Rightarrow> string list \<Rightarrow> indent_entry list \<times> region list
    \<Rightarrow> indent_entry list \<times> region list" where
  "py_loop i [] sr = sr"
| "py_loop i (line # rest) sr = py_loop (Suc i) rest (py_line i line sr)"

text \<open>
  The whole branch: the loop, then the entries still open, from the bottom of the stack
  to its top, each closed at \<^verbatim>\<open>len(lines)\<close>.
\<close>

definition py_regions :: "string list \<Rightarrow> region list" where
  "py_regions lines =
     (let sr = py_loop 1 lines ([], []) in
      snd sr @ map (\<lambda>(t, s, ind). (t, s, length lines)) (rev (fst sr)))"

subsection \<open>The brace grammar\<close>

record scan_state =
  brace_stack :: "(kind \<times> nat) list"
  in_comment :: bool
  in_string :: bool
  escape_next :: bool
  fold_regions :: "region list"

definition init_state :: scan_state where
  "init_state = \<lparr>brace_stack = [], in_comment = False, in_string = False,
                 escape_next = False, fold_regions = []\<rparr>"

definition fold_keywords :: "string list" where
  "fold_keywords = [''class'', ''struct'', ''enum'', ''union'', ''namespace'']"

text \<open>
  The test made at an opening brace in column \<open>j\<close> of line \<open>i\<close>:
  \<^verbatim>\<open>prev_text = ' '.join(lines[max(0, i-2):i-1] + [line[:j]])\<close> holds one of the
  keywords, or the signature pattern is found in
  \<^verbatim>\<open>'\n'.join(lines[max(0, i-2):i-1])\<close>. On naturals \<open>i - 2\<close> is \<^verbatim>\<open>max(0, i-2)\<close>.
\<close>

definition opens_region :: "string list \<Rightarrow> nat \<Rightarrow> string \<Rightarrow> nat \<Rightarrow> bool" where
  "opens_region lines i line j =
     (let prev_text = join '' '' (slice (i - 2) (i - 1) lines @ [take j line]) in
      list_ex (contains prev_text) fold_keywords
      \<or> signature_search (join [CHR 0x0A] (slice (i - 2) (i - 1) lines)))"

text \<open>The last block of the loop body, reached when no earlier test took the character.\<close>

definition brace_step :: "string list \<Rightarrow> nat \<Rightarrow> string \<Rightarrow> nat \<Rightarrow> scan_state \<Rightarrow> scan_state" where
  "brace_step lines i line j st =
     (if \<not> in_comment st \<and> \<not> in_string st then
        (if line ! j = CHR ''{'' then
           (if opens_region lines i line j
            then st\<lparr>brace_stack := (Block, i) # brace_stack st\<rparr> else st)
         else if line ! j = CHR ''}'' then
           (case brace_stack st of
              [] \<Rightarrow> st
            | (t, s) # rest \<Rightarrow>
                (if s < i
                 then st\<lparr>brace_stack := rest, fold_regions := fold_regions st @ [(t, s, i)]\<rparr>
                 else st\<lparr>brace_stack := rest\<rparr>))
         else st)
      else st)"

text \<open>
  One turn of \<^verbatim>\<open>while j < len(line)\<close>, for \<open>j < length line\<close>: \<open>None\<close> is the
  \<^verbatim>\<open>break\<close> of a line comment, \<open>Some (j', st')\<close> the next column and state.
\<close>

definition loop_body :: "string list \<Rightarrow> nat \<Rightarrow> string \<Rightarrow> nat \<Rightarrow> scan_state
    \<Rightarrow> (nat \<times> scan_state) option" where
  "loop_body lines i line j st =
     (let char = line ! j in
      if escape_next st then Some (j + 1, st\<lparr>escape_next := False\<rparr>)
      else if char = CHR 0x5C then Some (j + 1, st\<lparr>escape_next := True\<rparr>)
      else if char = CHR 0x22 \<and> \<not> in_comment st
        then Some (j + 1, st\<lparr>in_string := \<not> in_string st\<rparr>)
      else if char = CHR ''/'' \<and> j + 1 < length line \<and> \<not> in_string st
              \<and> line ! (j + 1) = CHR ''*''
        then Some (j + 2, st\<lparr>in_comment := True\<rparr>)
      else if char = CHR ''/'' \<and> j + 1 < length line \<and> \<not> in_string st
              \<and> line ! (j + 1) = CHR ''/''
        then None
      else if char = CHR ''*'' \<and> j + 1 < length line \<and> in_comment st
              \<and> line ! (j + 1) = CHR ''/''
        then Some (j + 2, st\<lparr>in_comment := False\<rparr>)
      else Some (j + 1, brace_step lines i line j st))"

function scan_from :: "string list \<Rightarrow> nat \<Rightarrow> string \<Rightarrow> nat \<Rightarrow> scan_state \<Rightarrow> scan_state" where
  "scan_from lines i line j st =
     (if j < length line
      then (case loop_body lines i line j st of
              None \<Rightarrow> st
            | Some (j', st') \<Rightarrow> scan_from lines i line j' st')
      else st)"
  by pat_completeness auto
termination
  by (relation "measure (\<lambda>(lines, i, line, j, st). length line - j)")
     (auto simp: loop_body_def Let_def split: if_splits)

declare scan_from.simps [simp del]

text \<open>\<^verbatim>\<open>for i, line in enumerate(lines, 1)\<close>, from line number \<open>i\<close> on.\<close>

fun scan_lines :: "string list \<Rightarrow> nat \<Rightarrow> string list \<Rightarrow> scan_state \<Rightarrow> scan_state" where
  "scan_lines lines i [] st = st"
| "scan_lines lines i (line # rest) st =
     scan_lines lines (Suc i) rest (scan_from lines i line 0 st)"

definition c_regions :: "string list \<Rightarrow> region list" where
  "c_regions lines = fold_regions (scan_lines lines 1 lines init_state)"

subsection \<open>The analyser\<close>

text \<open>
  \<^verbatim>\<open>_analyze_code_structure\<close>: \<open>content\<close> is the text of the editor
  (\<^verbatim>\<open>editor.get("1.0", "end-1c")\<close>). With an empty path the function returns before
  it computes or stores anything: that is \<open>None\<close>. Otherwise the region list it stores.
\<close>

definition analyze :: "string \<Rightarrow> string \<Rightarrow> region list option" where
  "analyze content filepath =
     (if filepath = [] then None
      else (let lines = split_lines content in
        Some (if endswith filepath ''.py'' then py_regions lines
              else if endswith filepath ''.c'' \<or> endswith filepath ''.cpp''
                      \<or> endswith filepath ''.h'' then c_regions lines
              else [])))"

text \<open>
  \<^verbatim>\<open>self.fold_regions\<close> is a dictionary from editor widgets to region lists; its readers
  use \<^verbatim>\<open>self.fold_regions.get(editor, [])\<close>.
\<close>

type_synonym 'e registry = "'e \<rightharpoonup> region list"

definition analyze_code_structure :: "'e registry \<Rightarrow> 'e \<Rightarrow> string \<Rightarrow> string \<Rightarrow> 'e registry" where
  "analyze_code_structure reg editor content filepath =
     (case analyze content filepath of
        None \<Rightarrow> reg
      | Some regs \<Rightarrow> reg(editor \<mapsto> regs))"

definition regions_of :: "'e registry \<Rightarrow> 'e \<Rightarrow> region list" where
  "regions_of reg editor = (case reg editor of None \<Rightarrow> [] | Some regs \<Rightarrow> regs)"

section \<open>Folding and unfolding a region\<close>

text \<open>
  The editor is a Tk text widget. Its text is kept as the list of its lines (the pieces
  between newlines, never empty for a widget); its marks as the set of start lines \<open>n\<close>
  whose mark \<^verbatim>\<open>fold_n\<close> is set.
\<close>

record editor =
  text_lines :: "string list"
  fold_marks :: "nat set"

text \<open>
  \<^verbatim>\<open>editor.insert(f"{start_line}.0", s)\<close>: \<open>s\<close> goes in front of line \<open>start_line\<close>.
  Tk reads a line number below 1 as the first line, and one past the last line as the end of
  the text, where an insertion lands at the end of the last line.
\<close>

definition tk_insert_at_line :: "nat \<Rightarrow> string \<Rightarrow> string list \<Rightarrow> string list" where
  "tk_insert_at_line l s ls =
     (if l - 1 < length ls then ls[l - 1 := s @ ls ! (l - 1)]
      else if ls = [] then [s]
      else ls[length ls - 1 := ls ! (length ls - 1) @ s])"

text \<open>
  \<^verbatim>\<open>editor.delete(f"{start_line}.0+1l", f"{end_line}.0")\<close>: from the start of the line
  after \<open>start_line\<close> to the start of line \<open>end_line\<close>, that is the lines strictly between
  the two; nothing when the second index is not after the first. When the second index is
  past the last line Tk deletes through the end of the text and keeps its final newline.
\<close>

definition tk_delete_between :: "nat \<Rightarrow> nat \<Rightarrow> string list \<Rightarrow> string list" where
  "tk_delete_between start_l end_l ls =
     (if start_l + 1 < end_l then take start_l ls @ drop (end_l - 1) ls else ls)"

datatype error = AttributeError

text \<open>
  \<^verbatim>\<open>_toggle_fold\<close>. The source asks the widget \<^verbatim>\<open>editor.mark_get(fold_mark)\<close>.
  \<^verbatim>\<open>tkinter.Text\<close> has no method of that name, so on the widget the program creates the
  call raises: \<open>mark_get = None\<close>. With a widget that has the method, \<open>mark_get\<close> is
  its reading of the marks.
\<close>

definition toggle_fold :: "(editor \<Rightarrow> nat \<Rightarrow> bool) option \<Rightarrow> editor \<Rightarrow> nat \<Rightarrow> nat
    \<Rightarrow> error + editor" where
  "toggle_fold mark_get ed start_l end_l =
     (case mark_get of
        None \<Rightarrow> Inl AttributeError
      | Some get \<Rightarrow>
          if get ed start_l
          then Inr (ed\<lparr>fold_marks := fold_marks ed - {start_l},
                       text_lines := tk_delete_between start_l end_l (text_lines ed)\<rparr>)
          else Inr (ed\<lparr>fold_marks := insert start_l (fold_marks ed),
                       text_lines := tk_insert_at_line start_l '' [...] '' (text_lines ed)\<rparr>))"

definition mark_is_set :: "editor \<Rightarrow> nat \<Rightarrow> bool" where
  "mark_is_set ed n = (n \<in> fold_marks ed)"

section \<open>Syntax highlighting\<close>

text \<open>
  The lexers come from the pygments library: \<^verbatim>\<open>lex(content, lexer)\<close> yields pairs
  \<^verbatim>\<open>(token_type, value)\<close> and no position. A token is kept as the pair of
  \<^verbatim>\<open>str(token_type)\<close> and its text; the library's \<^verbatim>\<open>lex\<close> is the parameter \<open>lex_fn\<close>, \<open>None\<close>
  when it raises. A call \<^verbatim>\<open>editor.tag_add(tag_name, pos, end)\<close> is kept as the tag name
  with the offsets of \<open>pos\<close> and \<open>end\<close> in the widget's text, counted in characters.
\<close>

datatype lexer = PythonLexer | CLexer | CppLexer

type_synonym token = "string \<times> string"

type_synonym tag_call = "string \<times> nat \<times> nat"

definition select_lexer :: "string \<Rightarrow> lexer option" where
  "select_lexer filepath =
     (if endswith filepath ''.py'' then Some PythonLexer
      else if endswith filepath ''.c'' then Some CLexer
      else if list_ex (endswith filepath) [''.cpp'', ''.cc'', ''.cxx'', ''.h'', ''.hpp'']
        then Some CppLexer
      else None)"

text \<open>The offset of the first occurrence of \<open>v\<close> in \<open>s\<close>.\<close>

fun find_sub :: "string \<Rightarrow> string \<Rightarrow> nat option" where
  "find_sub v [] = (if v = [] then Some 0 else None)"
| "find_sub v (c # cs) =
     (if startswith (c # cs) v then Some 0 else map_option Suc (find_sub v cs))"

text \<open>
  \<^verbatim>\<open>editor.search(value, start, stopindex="end", regexp=False)\<close>: the first occurrence
  at or after \<open>start\<close>, with no wrap-around.
\<close>

definition search :: "string \<Rightarrow> string \<Rightarrow> nat \<Rightarrow> nat option" where
  "search buf v start =
     (if start \<le> length buf then map_option (\<lambda>p. start + p) (find_sub v (drop start buf))
      else None)"

text \<open>
  The \<^verbatim>\<open>while True\<close> loop for one token, from \<open>start\<close>: the calls of \<^verbatim>\<open>tag_add\<close> it
  makes. The loop leaves when the search finds nothing; \<open>None\<close> is a loop that has not left
  after \<open>fuel\<close> turns.
\<close>

fun tag_occurrences :: "nat \<Rightarrow> string \<Rightarrow> token \<Rightarrow> nat \<Rightarrow> tag_call list option" where
  "tag_occurrences 0 buf tok start = None"
| "tag_occurrences (Suc fuel) buf tok start =
     (case search buf (snd tok) start of
        None \<Rightarrow> Some []
      | Some pos \<Rightarrow>
          (let end = pos + length (snd tok) in
           map_option (\<lambda>calls. (fst tok, pos, end) # calls)
             (tag_occurrences fuel buf tok end)))"

text \<open>\<^verbatim>\<open>for token_type, value in tokens\<close>.\<close>

fun tag_tokens :: "nat \<Rightarrow> string \<Rightarrow> token list \<Rightarrow> tag_call list option" where
  "tag_tokens fuel buf [] = Some []"
| "tag_tokens fuel buf (tok # toks) =
     (case tag_occurrences fuel buf tok 0 of
        None \<Rightarrow> None
      | Some calls \<Rightarrow> map_option (\<lambda>more. calls @ more) (tag_tokens fuel buf toks))"

text \<open>
  \<^verbatim>\<open>_apply_syntax_highlight\<close>: the calls of \<^verbatim>\<open>tag_add\<close> it makes on the editor whose
  text is \<open>content\<close>; the widget's own text ends with one more newline, which the search
  sees. The function returns without a call when pygments is missing, when the path has
  none of the known endings and when the lexer raises. (It first deletes the tags whose name
  starts with \<^verbatim>\<open>token.\<close> and sets the colour of each new tag; neither adds a tag.)
\<close>

definition apply_syntax_highlight :: "bool \<Rightarrow> (lexer \<Rightarrow> string \<Rightarrow> token list option) \<Rightarrow> nat
    \<Rightarrow> string \<Rightarrow> string \<Rightarrow> tag_call list option" where
  "apply_syntax_highlight pygments_available lex_fn fuel content filepath =
     (if \<not> pygments_available then Some []
      else (case select_lexer filepath of
              None \<Rightarrow> Some []
            | Some lexer \<Rightarrow>
                (case lex_fn lexer content of
                   None \<Rightarrow> Some []
                 | Some tokens \<Rightarrow> tag_tokens fuel (content @ [CHR 0x0A]) tokens)))"

section \<open>Notions used by the properties\<close>

text \<open>
  The order the specification asks of a region list: by start line ascending and, for equal
  start lines, by end line descending.
\<close>

definition outer_first :: "region list \<Rightarrow> bool" where
  "outer_first regs =
     sorted_wrt (\<lambda>a b. start_line a < start_line b
                     \<or> (start_line a = start_line b \<and> end_line b \<le> end_line a)) regs"

text \<open>All regions of the list end at line \<open>b\<close> at the latest, in ascending order of end line.\<close>

definition closed_by :: "nat \<Rightarrow> region list \<Rightarrow> bool" where
  "closed_by b regs = (sorted (map end_line regs) \<and> list_all (\<lambda>r. end_line r \<le> b) regs)"

text \<open>Every region of the list starts before it ends.\<close>

definition proper :: "region list \<Rightarrow> bool" where
  "proper regs = list_all (\<lambda>r. start_line r < end_line r) regs"

text \<open>Every entry of the indentation stack was opened at line \<open>b\<close> at the latest.\<close>

definition opened_by :: "nat \<Rightarrow> indent_entry list \<Rightarrow> bool" where
  "opened_by b st = list_all (\<lambda>e. fst (snd e) \<le> b) st"


text \<open>A path with none of the endings that the analyser or the highlighter knows.\<close>

definition unsupported :: "string \<Rightarrow> bool" where
  "unsupported filepath =
     (\<not> list_ex (endswith filepath)
          [''.py'', ''.c'', ''.cpp'', ''.cc'', ''.cxx'', ''.h'', ''.hpp''])"

subsection \<open>String literals as the specification reads them\<close>













subsection \<open>Inputs\<close>

definition brace_example :: string where
  "brace_example = ''void f() {'' @ [CHR 0x0A] @ ''  int x;'' @ [CHR 0x0A] @ ''}'' @ [CHR 0x0A]"

definition class_example :: string where
  "class_example = ''class C:'' @ [CHR 0x0A] @ ''    def m(self):'' @ [CHR 0x0A]
       @ ''        pass'' @ [CHR 0x0A]"

definition nested_structs :: string where
  "nested_structs = ''struct A {'' @ [CHR 0x0A] @ ''struct B {'' @ [CHR 0x0A] @ ''}''
       @ [CHR 0x0A] @ ''}''"


definition string_line :: string where
  "string_line = ''char* s = '' @ [CHR 0x22] @ ''{ not real }'' @ [CHR 0x22] @ '';''"

definition quote_example :: "string list" where
  "quote_example = [''char c = '' @ [CHR 0x27, CHR 0x22, CHR 0x27] @ '';'',
                    ''printf('' @ [CHR 0x22] @ ''struct {'' @ [CHR 0x22] @ '');'',
                    ''puts('' @ [CHR 0x22] @ ''}'' @ [CHR 0x22] @ '');'']"


definition continued_lines :: "string list" where
  "continued_lines = [''struct A '' @ [CHR 0x5C], ''{'', ''}'']"

definition fold_example :: editor where
  "fold_example =
     \<lparr>text_lines = [''def f():'', ''    a = 1'', ''    b = 2''], fold_marks = {}\<rparr>"

definition foo_tokens :: "token list" where
  "foo_tokens = [(''Token.Name'', ''foo''), (''Token.Punctuation'', ''(''),
                 (''Token.Name'', ''foo''), (''Token.Punctuation'', '')''),
                 (''Token.Text.Whitespace'', [CHR 0x0A])]"

definition comment_tokens :: "token list" where
  "comment_tokens = [(''Token.Comment.Single'', ''# if''), (''Token.Text.Whitespace'', [CHR 0x0A]),
                     (''Token.Keyword'', ''if''), (''Token.Text'', '' ''),
                     (''Token.Name'', ''x''), (''Token.Punctuation'', '':''),
                     (''Token.Text.Whitespace'', [CHR 0x0A])]"

section \<open>Properties of the analyser\<close>

subsection \<open>The scan of a line, step by step\<close>

lemma brace_step_modes [simp]:
  "in_comment (brace_step lines i line j st) = in_comment st"
  "in_string (brace_step lines i line j st) = in_string st"
  "escape_next (brace_step lines i line j st) = escape_next st"
  by (auto simp: brace_step_def split: list.splits)

lemma brace_step_in_string: "in_string st \<Longrightarrow> brace_step lines i line j st = st"
  by (simp add: brace_step_def)

lemma scan_from_end: "length line \<le> j \<Longrightarrow> scan_from lines i line j st = st"
  by (simp add: scan_from.simps)

lemma scan_from_step:
  "j < length line \<Longrightarrow> loop_body lines i line j st = Some (j', st')
     \<Longrightarrow> scan_from lines i line j st = scan_from lines i line j' st'"
  by (simp add: scan_from.simps)



subsection \<open>Order of the region list\<close>

lemma closed_by_Nil: "closed_by b []"
  by (simp add: closed_by_def)

lemma closed_by_mono: "closed_by a regs \<Longrightarrow> a \<le> b \<Longrightarrow> closed_by b regs"
  by (auto simp: closed_by_def list_all_iff)

lemma closed_by_snoc: "closed_by i regs \<Longrightarrow> closed_by i (regs @ [(t, s, i)])"
  by (auto simp: closed_by_def list_all_iff sorted_append end_line_def)

lemma pop_closed_closed_by:
  "closed_by i regs \<Longrightarrow> closed_by i (snd (pop_closed i cur st regs))"
proof (induction st arbitrary: regs)
  case Nil
  then show ?case by simp
next
  case (Cons e st)
  obtain t s ind where e: "e = (t, s, ind)" by (cases e)
  show ?case
    using Cons.prems by (auto simp: e intro!: Cons.IH closed_by_snoc)
qed

lemma py_line_closed_by:
  "closed_by i (snd sr) \<Longrightarrow> closed_by i (snd (py_line i line sr))"
  by (simp add: py_line_def Let_def pop_closed_closed_by)

lemma py_loop_closed_by:
  "closed_by (i - 1) (snd sr) \<Longrightarrow> closed_by (i + length ls - 1) (snd (py_loop i ls sr))"
proof (induction ls arbitrary: i sr)
  case Nil
  then show ?case by simp
next
  case (Cons line rest)
  have "closed_by i (snd sr)"
    using Cons.prems by (rule closed_by_mono) simp
  then have "closed_by (Suc i - 1) (snd (py_line i line sr))"
    by (simp add: py_line_closed_by)
  then have "closed_by (Suc i + length rest - 1) (snd (py_loop (Suc i) rest (py_line i line sr)))"
    by (rule Cons.IH)
  then show ?case by simp
qed

lemma sorted_constant: "list_all (\<lambda>x. x = c) xs \<Longrightarrow> sorted (xs :: nat list)"
  by (induction xs) (auto simp: list_all_iff)

lemma py_regions_sorted: "sorted (map end_line (py_regions lines))"
proof -
  let ?sr = "py_loop 1 lines ([], [])"
  let ?tail = "map (\<lambda>(t, s, ind). (t, s, length lines)) (rev (fst ?sr))"
  have "closed_by (1 + length lines - 1) (snd ?sr)"
    by (rule py_loop_closed_by) (simp add: closed_by_Nil)
  then have head: "closed_by (length lines) (snd ?sr)" by simp
  have ends: "list_all (\<lambda>x. x = length lines) (map end_line ?tail)"
    by (auto simp: list_all_iff end_line_def)
  have "sorted (map end_line ?tail)"
    using ends by (rule sorted_constant)
  moreover have "\<forall>x\<in>set (map end_line (snd ?sr)). \<forall>y\<in>set (map end_line ?tail). x \<le> y"
    using head ends by (auto simp: closed_by_def list_all_iff)
  ultimately have "sorted (map end_line (snd ?sr) @ map end_line ?tail)"
    using head by (simp add: sorted_append closed_by_def)
  then show ?thesis by (simp add: py_regions_def Let_def)
qed

lemma brace_step_closed_by:
  "closed_by i (fold_regions st) \<Longrightarrow> closed_by i (fold_regions (brace_step lines i line j st))"
  by (auto simp: brace_step_def closed_by_snoc split: list.splits)

lemma loop_body_closed_by:
  "loop_body lines i line j st = Some (j', st') \<Longrightarrow> closed_by i (fold_regions st)
     \<Longrightarrow> closed_by i (fold_regions st')"
  by (auto simp: loop_body_def Let_def brace_step_closed_by split: if_splits)

lemma scan_from_closed_by:
  "closed_by i (fold_regions st) \<Longrightarrow> closed_by i (fold_regions (scan_from lines i line j st))"
proof (induction lines i line j st rule: scan_from.induct)
  case (1 lines i line j st)
  show ?case
  proof (cases "j < length line")
    case False
    then show ?thesis using "1.prems" by (simp add: scan_from.simps)
  next
    case True
    show ?thesis
    proof (cases "loop_body lines i line j st")
      case None
      then show ?thesis using True "1.prems" by (simp add: scan_from.simps)
    next
      case (Some p)
      obtain j' st' where p: "p = (j', st')" by (cases p)
      have "closed_by i (fold_regions st')"
        using Some p "1.prems" by (auto dest: loop_body_closed_by)
      then have "closed_by i (fold_regions (scan_from lines i line j' st'))"
        using True Some p by (intro "1.IH") auto
      then show ?thesis using True Some p by (simp add: scan_from.simps)
    qed
  qed
qed

lemma scan_lines_closed_by:
  "closed_by (i - 1) (fold_regions st)
     \<Longrightarrow> closed_by (i + length ls - 1) (fold_regions (scan_lines lines i ls st))"
proof (induction ls arbitrary: i st)
  case Nil
  then show ?case by simp
next
  case (Cons line rest)
  have "closed_by i (fold_regions st)"
    using Cons.prems by (rule closed_by_mono) simp
  then have "closed_by (Suc i - 1) (fold_regions (scan_from lines i line 0 st))"
    by (simp add: scan_from_closed_by)
  then have "closed_by (Suc i + length rest - 1)
      (fold_regions (scan_lines lines (Suc i) rest (scan_from lines i line 0 st)))"
    by (rule Cons.IH)
  then show ?case by simp
qed

lemma c_regions_sorted: "sorted (map end_line (c_regions lines))"
proof -
  have "closed_by (1 + length lines - 1) (fold_regions (scan_lines lines 1 lines init_state))"
    by (rule scan_lines_closed_by) (simp add: init_state_def closed_by_Nil)
  then show ?thesis by (simp add: c_regions_def closed_by_def)
qed

text \<open>
  Claim C3, as the analyser behaves. The analyser never sorts: a region is appended when it is
  closed, and the entries left open are closed last, at the last line. For every text and
  path the returned list is therefore in ascending order of end line; a region nested in
  another closes first and so can stand before the region around it.
\<close>

theorem regions_ordered_by_end_line:
  "analyze content filepath = Some regs \<Longrightarrow> sorted (map end_line regs)"
  by (auto simp: analyze_def Let_def py_regions_sorted c_regions_sorted split: if_splits)

theorem regions_ordered_by_end_line_witness:
  "analyze nested_structs ''a.c'' = Some [(Block, 2, 3), (Block, 1, 4)]
   \<and> sorted (map end_line [(Block, 2, 3), (Block, 1, 4)])"
proof -
  have h: "analyze nested_structs ''a.c'' = Some [(Block, 2, 3), (Block, 1, 4)]"
    by code_simp
  show ?thesis using h regions_ordered_by_end_line [OF h] by simp
qed

text \<open>
  Claim C3 as stated fails: two nested structs give the inner region, which starts at line 2,
  before the outer one, which starts at line 1.
\<close>

theorem regions_not_outer_first:
  "analyze nested_structs ''a.c'' = Some [(Block, 2, 3), (Block, 1, 4)]
   \<and> \<not> outer_first [(Block, 2, 3), (Block, 1, 4)]"
  by code_simp

subsection \<open>Start and end of a region\<close>

text \<open>
  Claim C4 at a \<^verbatim>\<open>def\<close> on the only line of a Python text. The loop over the lines
  appends a region only if \<^verbatim>\<open>i > start_line\<close>; the loop over the entries left open has
  no such test and closes the entry at \<^verbatim>\<open>len(lines)\<close>, here the line it starts on.
\<close>

theorem last_line_def_region_is_empty:
  "analyze ''def f(): pass'' ''a.py'' = Some [(Function, 1, 1)]
   \<and> \<not> start_line (Function, 1, 1) < end_line (Function, 1, 1)"
  by code_simp

text \<open>
  Elsewhere the property holds. In the brace grammar every region starts before it ends; in
  the indentation grammar so does every region closed inside the loop over the lines, and a
  region closed after the loop starts at its end line at the latest.
\<close>

lemma proper_snoc: "proper regs \<Longrightarrow> s < i \<Longrightarrow> proper (regs @ [(t, s, i)])"
  by (simp add: proper_def start_line_def end_line_def)

lemma brace_step_proper:
  "proper (fold_regions st) \<Longrightarrow> proper (fold_regions (brace_step lines i line j st))"
  by (auto simp: brace_step_def proper_snoc split: list.splits)

lemma loop_body_proper:
  "loop_body lines i line j st = Some (j', st') \<Longrightarrow> proper (fold_regions st)
     \<Longrightarrow> proper (fold_regions st')"
  by (auto simp: loop_body_def Let_def brace_step_proper split: if_splits)

lemma scan_from_proper:
  "proper (fold_regions st) \<Longrightarrow> proper (fold_regions (scan_from lines i line j st))"
proof (induction lines i line j st rule: scan_from.induct)
  case (1 lines i line j st)
  show ?case
  proof (cases "j < length line")
    case False
    then show ?thesis using "1.prems" by (simp add: scan_from_end)
  next
    case True
    show ?thesis
    proof (cases "loop_body lines i line j st")
      case None
      then show ?thesis using True "1.prems" by (simp add: scan_from.simps)
    next
      case (Some p)
      obtain j' st' where p: "p = (j', st')" by (cases p)
      have "proper (fold_regions st')"
        using Some p "1.prems" by (auto dest: loop_body_proper)
      then have "proper (fold_regions (scan_from lines i line j' st'))"
        using True Some p by (intro "1.IH") auto
      then show ?thesis using True Some p by (simp add: scan_from.simps)
    qed
  qed
qed

lemma scan_lines_proper:
  "proper (fold_regions st) \<Longrightarrow> proper (fold_regions (scan_lines lines i ls st))"
  by (induction ls arbitrary: i st) (simp_all add: scan_from_proper)

lemma c_regions_proper: "proper (c_regions lines)"
  unfolding c_regions_def
  by (rule scan_lines_proper) (simp add: init_state_def proper_def)

lemma pop_closed_proper:
  "proper regs \<Longrightarrow> proper (snd (pop_closed i cur st regs))"
proof (induction st arbitrary: regs)
  case Nil
  then show ?case by simp
next
  case (Cons e st)
  obtain t s ind where e: "e = (t, s, ind)" by (cases e)
  show ?case
    using Cons.prems by (auto simp: e intro!: Cons.IH proper_snoc)
qed

lemma py_loop_proper:
  "proper (snd sr) \<Longrightarrow> proper (snd (py_loop i ls sr))"
  by (induction ls arbitrary: i sr) (simp_all add: py_line_def Let_def pop_closed_proper)

lemma opened_by_mono: "opened_by a st \<Longrightarrow> a \<le> b \<Longrightarrow> opened_by b st"
  by (auto simp: opened_by_def list_all_iff)

lemma pop_closed_opened_by:
  "opened_by b st \<Longrightarrow> opened_by b (fst (pop_closed i cur st regs))"
proof (induction st arbitrary: regs)
  case Nil
  then show ?case by simp
next
  case (Cons e st)
  obtain t s ind where e: "e = (t, s, ind)" by (cases e)
  have "opened_by b st" using Cons.prems by (simp add: opened_by_def)
  then show ?case
    using Cons.prems Cons.IH by (simp add: e)
qed

lemma py_line_opened_by:
  "opened_by i (fst sr) \<Longrightarrow> opened_by i (fst (py_line i line sr))"
proof -
  assume a: "opened_by i (fst sr)"
  have push: "opened_by i ((t, i, n) # st)" if "opened_by i st" for t n st
    using that by (simp add: opened_by_def)
  show ?thesis
    using a by (auto simp: py_line_def Let_def intro!: push pop_closed_opened_by)
qed

lemma py_loop_opened_by:
  "opened_by (i - 1) (fst sr) \<Longrightarrow> opened_by (i + length ls - 1) (fst (py_loop i ls sr))"
proof (induction ls arbitrary: i sr)
  case Nil
  then show ?case by simp
next
  case (Cons line rest)
  have "opened_by i (fst sr)"
    using Cons.prems by (rule opened_by_mono) simp
  then have "opened_by (Suc i - 1) (fst (py_line i line sr))"
    by (simp add: py_line_opened_by)
  then have "opened_by (Suc i + length rest - 1) (fst (py_loop (Suc i) rest (py_line i line sr)))"
    by (rule Cons.IH)
  then show ?case by simp
qed

lemma py_regions_start_le_end:
  "list_all (\<lambda>r. start_line r \<le> end_line r) (py_regions lines)"
proof -
  let ?sr = "py_loop 1 lines ([], [])"
  have "proper (snd ?sr)"
    by (rule py_loop_proper) (simp add: proper_def)
  then have head: "list_all (\<lambda>r. start_line r \<le> end_line r) (snd ?sr)"
    by (auto simp: proper_def list_all_iff)
  have "opened_by (1 + length lines - 1) (fst ?sr)"
    by (rule py_loop_opened_by) (simp add: opened_by_def)
  then have tail: "list_all (\<lambda>r. start_line r \<le> end_line r)
      (map (\<lambda>(t, s, ind). (t, s, length lines)) (rev (fst ?sr)))"
    by (auto simp: opened_by_def list_all_iff start_line_def end_line_def)
  show ?thesis
    using head tail by (simp add: py_regions_def Let_def)
qed

subsection \<open>The modes of the brace scanner\<close>








text \<open>
  The guard of the brace test: whatever character the scanner reads in string mode, an
  opening brace among them, the turn of the loop leaves the brace stack and the region list
  as they are.
\<close>

lemma in_string_step_keeps_openers:
  assumes "in_string st" and "j < length line"
    and "loop_body lines i line j st = Some (j', st')"
  shows "brace_stack st' = brace_stack st \<and> fold_regions st' = fold_regions st"
  using assms by (auto simp: loop_body_def Let_def brace_step_in_string split: if_splits)

text \<open>
  The same on a whole stretch of a line: in string mode the scanner passes over text without
  double quote and backslash and arrives behind it in the state it had in front of it. On
  the line of the example nothing opens, wherever the line stands and whatever was opened
  before it, if only the scanner starts the line in normal mode: the scan of the line
  returns the state it was given.
\<close>

lemma string_interior_skipped:
  assumes "in_string st" and "\<not> escape_next st" and "\<not> in_comment st"
    and "j \<le> k" and "k \<le> length line"
    and "list_all (\<lambda>c. c \<noteq> CHR 0x22 \<and> c \<noteq> CHR 0x5C) (take (k - j) (drop j line))"
  shows "scan_from lines i line j st = scan_from lines i line k st"
  using assms(4,5,6)
proof (induction k rule: dec_induct)
  case base
  then show ?case by simp
next
  case (step n)
  have n: "n < length line" using step by simp
  have "take (Suc n - j) (drop j line) = take (n - j) (drop j line) @ [line ! n]"
    using step n by (simp add: Suc_diff_le take_Suc_conv_app_nth)
  then have ch: "line ! n \<noteq> CHR 0x22" "line ! n \<noteq> CHR 0x5C"
    and pre: "list_all (\<lambda>c. c \<noteq> CHR 0x22 \<and> c \<noteq> CHR 0x5C) (take (n - j) (drop j line))"
    using step.prems by auto
  have "loop_body lines i line n st = Some (Suc n, st)"
    using ch assms(1-3) by (simp add: loop_body_def brace_step_in_string)
  then have "scan_from lines i line n st = scan_from lines i line (Suc n) st"
    using n by (rule scan_from_step [rotated])
  then show ?case using step.IH pre n by simp
qed

lemma plain_text_skipped:
  assumes "\<not> in_string st" and "\<not> escape_next st" and "\<not> in_comment st"
    and "j \<le> k" and "k \<le> length line"
    and "list_all (\<lambda>c. c \<notin> set [CHR 0x22, CHR 0x5C, CHR ''/'', CHR ''{'', CHR ''}''])
           (take (k - j) (drop j line))"
  shows "scan_from lines i line j st = scan_from lines i line k st"
  using assms(4,5,6)
proof (induction k rule: dec_induct)
  case base
  then show ?case by simp
next
  case (step n)
  have n: "n < length line" using step by simp
  have "take (Suc n - j) (drop j line) = take (n - j) (drop j line) @ [line ! n]"
    using step n by (simp add: Suc_diff_le take_Suc_conv_app_nth)
  then have ch: "line ! n \<notin> set [CHR 0x22, CHR 0x5C, CHR ''/'', CHR ''{'', CHR ''}'']"
    and pre: "list_all (\<lambda>c. c \<notin> set [CHR 0x22, CHR 0x5C, CHR ''/'', CHR ''{'', CHR ''}''])
                (take (n - j) (drop j line))"
    using step.prems by auto
  have "loop_body lines i line n st = Some (Suc n, st)"
    using ch assms(1-3) by (simp add: loop_body_def brace_step_def)
  then have "scan_from lines i line n st = scan_from lines i line (Suc n) st"
    using n by (rule scan_from_step [rotated])
  then show ?case using step.IH pre n by simp
qed

lemma quote_toggles_string:
  assumes "\<not> escape_next st" and "\<not> in_comment st" and "j < length line"
    and "line ! j = CHR 0x22"
  shows "scan_from lines i line j st
       = scan_from lines i line (Suc j) (st\<lparr>in_string := \<not> in_string st\<rparr>)"
  using assms by (intro scan_from_step) (simp_all add: loop_body_def)

lemma string_line_leaves_state:
  assumes "\<not> in_string st" and "\<not> escape_next st" and "\<not> in_comment st"
  shows "scan_from lines i string_line 0 st = st"
proof -
  let ?in = "st\<lparr>in_string := True\<rparr>"
  have out: "?in\<lparr>in_string := False\<rparr> = st" using assms(1) by simp
  have "scan_from lines i string_line 0 st = scan_from lines i string_line 10 st"
    using assms by (intro plain_text_skipped) (simp_all add: string_line_def)
  also have "\<dots> = scan_from lines i string_line 11 ?in"
    using quote_toggles_string [of st 10 string_line lines i] assms
    by (simp add: string_line_def)
  also have "\<dots> = scan_from lines i string_line 23 ?in"
    using assms by (intro string_interior_skipped) (simp_all add: string_line_def)
  also have "\<dots> = scan_from lines i string_line 24 st"
    using quote_toggles_string [of ?in 23 string_line lines i] assms out
    by (simp add: string_line_def)
  also have "\<dots> = scan_from lines i string_line 25 st"
    using assms by (intro plain_text_skipped) (simp_all add: string_line_def)
  also have "\<dots> = st"
    by (simp add: scan_from_end string_line_def)
  finally show ?thesis .
qed

lemma string_line_opens_nothing:
  "c_regions [''int main()'', string_line, ''}''] = []
   \<and> brace_stack (scan_lines [''int main()'', string_line] 1 [''int main()'', string_line]
        init_state) = []
   \<and> opens_region [''int main()'', string_line] 2 string_line 11"
  by code_simp

subsection \<open>Braces inside string literals\<close>



















lemma quote_example_analysis:
  "analyze (join [CHR 0x0A] quote_example) ''a.c'' = Some [(Block, 2, 3)]"
  by code_simp

subsection \<open>The backslash\<close>

text \<open>
  Claim C10. The test of \<^verbatim>\<open>escape_next\<close> and the test for a backslash come first in the
  loop body and ask for no mode, and \<^verbatim>\<open>escape_next\<close> is not reset at a line end. So in
  every state without a pending escape, a backslash and the character after it are passed
  over together and leave the state as it was. When the backslash ends the line, the scan of
  the line ends with the escape pending; if the scan of the line from its start came to
  this backslash, the loop over the lines goes on behind the first character of the
  following line, in the state the scanner had at the backslash.
\<close>

theorem backslash_skips_next_character:
  assumes "\<not> escape_next st" and "j < length line" and "line ! j = CHR 0x5C"
  shows "(j + 1 < length line \<longrightarrow>
            scan_from lines i line j st = scan_from lines i line (j + 2) st)
       \<and> (j + 1 = length line \<longrightarrow>
            scan_from lines i line j st = st\<lparr>escape_next := True\<rparr>
            \<and> (\<forall>st0 next_line rest.
                  scan_from lines i line 0 st0 = scan_from lines i line j st
                  \<and> next_line \<noteq> [] \<longrightarrow>
                  scan_lines lines i (line # next_line # rest) st0
                    = scan_lines lines (Suc (Suc i)) rest
                        (scan_from lines (Suc i) next_line 1 st)))"
proof -
  let ?esc = "st\<lparr>escape_next := True\<rparr>"
  have cleared: "?esc\<lparr>escape_next := False\<rparr> = st" using assms(1) by simp
  have first: "scan_from lines i line j st = scan_from lines i line (j + 1) ?esc"
    using assms by (intro scan_from_step) (simp_all add: loop_body_def)
  have skip: "scan_from lines i2 l p ?esc = scan_from lines i2 l (p + 1) st"
    if "p < length l" for i2 l p
  proof -
    have "loop_body lines i2 l p ?esc = Some (p + 1, ?esc\<lparr>escape_next := False\<rparr>)"
      by (simp add: loop_body_def)
    then show ?thesis using that cleared scan_from_step by metis
  qed
  show ?thesis
  proof (intro conjI impI allI)
    assume "j + 1 < length line"
    then show "scan_from lines i line j st = scan_from lines i line (j + 2) st"
      using first skip [of "j + 1" line i] by simp
  next
    assume e: "j + 1 = length line"
    then show "scan_from lines i line j st = ?esc"
      using first by (simp add: scan_from_end)
  next
    fix st0 and next_line :: string and rest
    assume e: "j + 1 = length line"
      and a: "scan_from lines i line 0 st0 = scan_from lines i line j st \<and> next_line \<noteq> []"
    have "scan_from lines i line 0 st0 = ?esc"
      using a e first by (simp add: scan_from_end)
    moreover have "scan_from lines (Suc i) next_line 0 ?esc
        = scan_from lines (Suc i) next_line 1 st"
      using a skip [of 0 next_line "Suc i"] by simp
    ultimately show "scan_lines lines i (line # next_line # rest) st0
        = scan_lines lines (Suc (Suc i)) rest (scan_from lines (Suc i) next_line 1 st)"
      by simp
  qed
qed

theorem backslash_skips_next_character_witness:
  "\<not> escape_next (init_state\<lparr>in_comment := True\<rparr>)
   \<and> (2::nat) < length [CHR ''a'', CHR ''*'', CHR 0x5C, CHR ''*'', CHR ''/'']
   \<and> [CHR ''a'', CHR ''*'', CHR 0x5C, CHR ''*'', CHR ''/''] ! 2 = CHR 0x5C
   \<and> scan_from [] 1 [CHR ''a'', CHR ''*'', CHR 0x5C, CHR ''*'', CHR ''/''] 2
        (init_state\<lparr>in_comment := True\<rparr>)
      = scan_from [] 1 [CHR ''a'', CHR ''*'', CHR 0x5C, CHR ''*'', CHR ''/''] 4
        (init_state\<lparr>in_comment := True\<rparr>)
   \<and> \<not> escape_next init_state \<and> (9::nat) < length (continued_lines ! 0)
   \<and> continued_lines ! 0 ! 9 = CHR 0x5C
   \<and> scan_from continued_lines 1 (continued_lines ! 0) 0 init_state
      = scan_from continued_lines 1 (continued_lines ! 0) 9 init_state
   \<and> scan_lines continued_lines 1 continued_lines init_state
      = scan_lines continued_lines 3 [''}''] (scan_from continued_lines 2 ''{'' 1 init_state)
   \<and> c_regions continued_lines = []"
proof -
  let ?c = "[CHR ''a'', CHR ''*'', CHR 0x5C, CHR ''*'', CHR ''/'']"
  let ?l = "continued_lines ! 0"
  have a: "\<not> escape_next (init_state\<lparr>in_comment := True\<rparr>)" "(2::nat) < length ?c"
    "?c ! 2 = CHR 0x5C"
    by (simp_all add: init_state_def)
  have b: "\<not> escape_next init_state" "(9::nat) < length ?l" "?l ! 9 = CHR 0x5C"
    by (simp_all add: init_state_def continued_lines_def)
  have inside: "scan_from [] 1 ?c 2 (init_state\<lparr>in_comment := True\<rparr>)
      = scan_from [] 1 ?c 4 (init_state\<lparr>in_comment := True\<rparr>)"
    using backslash_skips_next_character [OF a, of "[]" 1] by simp
  have len: "9 + 1 = length ?l" by (simp add: continued_lines_def)
  have arrive: "scan_from continued_lines 1 ?l 0 init_state
      = scan_from continued_lines 1 ?l 9 init_state"
    by code_simp
  have split: "continued_lines = ?l # ''{'' # [''}'']"
    by (simp add: continued_lines_def)
  have seam: "\<forall>st0 next_line rest.
      scan_from continued_lines 1 ?l 0 st0 = scan_from continued_lines 1 ?l 9 init_state
      \<and> next_line \<noteq> [] \<longrightarrow>
      scan_lines continued_lines 1 (?l # next_line # rest) st0
        = scan_lines continued_lines (Suc (Suc 1)) rest
            (scan_from continued_lines (Suc 1) next_line 1 init_state)"
    using backslash_skips_next_character [OF b, of continued_lines 1, THEN conjunct2,
        THEN mp, OF len] by (rule conjunct2)
  have "scan_lines continued_lines 1 (?l # ''{'' # [''}'']) init_state
      = scan_lines continued_lines (Suc (Suc 1)) [''}'']
          (scan_from continued_lines (Suc 1) ''{'' 1 init_state)"
    using seam arrive by blast
  then have lines: "scan_lines continued_lines 1 continued_lines init_state
      = scan_lines continued_lines 3 [''}''] (scan_from continued_lines 2 ''{'' 1 init_state)"
    using split by (simp add: numeral_3_eq_3 numeral_2_eq_2)
  have none: "c_regions continued_lines = []"
    by code_simp
  show ?thesis using a b inside arrive lines none by blast
qed

lemma escaped_brace_across_lines:
  "analyze (''struct A '' @ [CHR 0x5C, CHR 0x0A] @ ''{'' @ [CHR 0x0A] @ ''}'') ''a.c'' = Some []
   \<and> analyze (''struct A '' @ [CHR 0x0A] @ ''{'' @ [CHR 0x0A] @ ''}'') ''a.c''
       = Some [(Block, 2, 3)]"
  by code_simp

subsection \<open>The examples of the specification\<close>

text \<open>
  Claim C7 at its own input. The brace of \<^verbatim>\<open>void f() {\<close> stands on line 1: no keyword is
  in the text before it, and the signature pattern is searched in the previous line only,
  which line 1 does not have. The brace opens nothing and the analyser returns no region.
\<close>

theorem same_line_signature_opens_nothing:
  "analyze brace_example ''a.c'' = Some []"
  by code_simp

text \<open>
  Claim C8, as the analyser behaves: for the text of the example it returns the class region
  from line 1 and the function region from line 2, in this order, both ending at line 4.
  The text ends with a newline, so \<^verbatim>\<open>split\<close> gives four lines, the last one empty, and
  the entries left open are closed at \<^verbatim>\<open>len(lines)\<close>.
\<close>

theorem class_example_regions:
  "analyze class_example ''a.py'' = Some [(Class, 1, 4), (Function, 2, 4)]"
  by code_simp

text \<open>Claim C8 as stated fails: the regions do not end at line 3.\<close>

theorem class_example_not_lines_1_to_3:
  "analyze class_example ''a.py'' \<noteq> Some [(Class, 1, 3), (Function, 2, 3)]"
  by code_simp

subsection \<open>Paths of no supported language\<close>

lemma unsupported_endings:
  "unsupported fp \<Longrightarrow> \<not> endswith fp ''.py'' \<and> \<not> endswith fp ''.c'' \<and> \<not> endswith fp ''.cpp''
     \<and> \<not> endswith fp ''.h'' \<and> select_lexer fp = None"
  by (simp add: unsupported_def select_lexer_def)

text \<open>
  Claim C9. For a path with none of the known endings nothing fails. The analyser stores the
  empty region list for the editor; if the path is empty it returns before that and leaves
  the registry as it is. The highlighter returns without a call of \<^verbatim>\<open>tag_add\<close>,
  whatever the lexer function and the bound on the search loop.
\<close>

theorem unsupported_file_is_noop:
  assumes "unsupported filepath"
  shows "analyze content filepath = (if filepath = [] then None else Some [])
       \<and> analyze_code_structure reg editor content filepath
           = (if filepath = [] then reg else reg(editor \<mapsto> []))
       \<and> apply_syntax_highlight available lex_fn fuel content filepath = Some []"
  using unsupported_endings [OF assms]
  by (simp add: analyze_def analyze_code_structure_def apply_syntax_highlight_def Let_def)

theorem unsupported_file_is_noop_witness:
  "unsupported ''notes.txt''
   \<and> analyze ''void f()'' ''notes.txt'' = Some []
   \<and> regions_of (analyze_code_structure Map.empty (0::nat) ''void f()'' ''notes.txt'') 0 = []
   \<and> apply_syntax_highlight True (\<lambda>l s. Some foo_tokens) 12 ''void f()'' ''notes.txt'' = Some []"
proof -
  have h: "unsupported ''notes.txt''"
    by code_simp
  show ?thesis
    using h unsupported_file_is_noop [OF h, of "''void f()''" Map.empty "0::nat" True
        "\<lambda>l s. Some foo_tokens" 12]
    by (simp add: regions_of_def)
qed

section \<open>Properties of folding and highlighting\<close>

text \<open>
  Claim C1 at a function of three lines, region \<open>(1, 3)\<close>. With a widget that answers
  \<^verbatim>\<open>mark_get\<close>, the first call puts the marker text in front of line 1 and takes nothing
  out of the text; the second call deletes line 2 for good. The text after the two calls is
  not the text before them. On the widget of the program the call raises.
\<close>

theorem toggle_fold_twice_changes_text:
  "toggle_fold (Some mark_is_set) fold_example 1 3
     = Inr \<lparr>text_lines = ['' [...] def f():'', ''    a = 1'', ''    b = 2''], fold_marks = {1}\<rparr>
   \<and> toggle_fold (Some mark_is_set)
       \<lparr>text_lines = ['' [...] def f():'', ''    a = 1'', ''    b = 2''], fold_marks = {1}\<rparr> 1 3
     = Inr \<lparr>text_lines = ['' [...] def f():'', ''    b = 2''], fold_marks = {}\<rparr>
   \<and> toggle_fold None fold_example 1 3 = Inl AttributeError"
  by (simp add: toggle_fold_def mark_is_set_def fold_example_def tk_insert_at_line_def
      tk_delete_between_def)

text \<open>
  This holds for every region that starts on a line of the text: after the two calls the
  start line carries the marker text in front of what it was.
\<close>

lemma toggle_fold_twice_header:
  assumes "1 \<le> s" and "s \<le> length (text_lines ed)" and "s \<notin> fold_marks ed"
    and "toggle_fold (Some mark_is_set) ed s e = Inr ed1"
    and "toggle_fold (Some mark_is_set) ed1 s e = Inr ed2"
  shows "text_lines ed2 ! (s - 1) = '' [...] '' @ text_lines ed ! (s - 1)"
proof -
  let ?ls1 = "(text_lines ed)[s - 1 := '' [...] '' @ text_lines ed ! (s - 1)]"
  have ed1: "ed1 = ed\<lparr>fold_marks := insert s (fold_marks ed), text_lines := ?ls1\<rparr>"
    using assms(1-4) by (auto simp: toggle_fold_def mark_is_set_def tk_insert_at_line_def)
  have ed2: "text_lines ed2 = tk_delete_between s e ?ls1"
    using assms(5) by (auto simp: ed1 toggle_fold_def mark_is_set_def)
  have "tk_delete_between s e ?ls1 ! (s - 1) = ?ls1 ! (s - 1)"
    using assms(1,2) by (simp add: tk_delete_between_def nth_append)
  then show ?thesis using assms(1,2) ed2 by simp
qed

lemma toggle_fold_never_round_trips:
  assumes "1 \<le> s" and "s \<le> length (text_lines ed)" and "s \<notin> fold_marks ed"
    and "toggle_fold (Some mark_is_set) ed s e = Inr ed1"
    and "toggle_fold (Some mark_is_set) ed1 s e = Inr ed2"
  shows "text_lines ed2 \<noteq> text_lines ed"
  using toggle_fold_twice_header [OF assms] by auto

text \<open>
  Claim C2 at its own input. The lexer reports no span; the loop looks for the text of each
  token from the start of the widget and tags every place where it finds it. For
  \<^verbatim>\<open>foo(foo)\<close> the first token \<^verbatim>\<open>foo\<close> is tagged at offsets 0 to 3 and again at 4 to 7,
  the place of the other token. For a comment \<^verbatim>\<open># if\<close> followed by a line \<^verbatim>\<open>if x:\<close> the
  keyword's tag also lands inside the comment, at offsets 2 to 4.
\<close>

theorem tags_attach_to_every_occurrence:
  "apply_syntax_highlight True (\<lambda>l s. Some foo_tokens) 12 ''foo(foo)'' ''a.py''
     = Some [(''Token.Name'', 0, 3), (''Token.Name'', 4, 7), (''Token.Punctuation'', 3, 4),
             (''Token.Name'', 0, 3), (''Token.Name'', 4, 7), (''Token.Punctuation'', 7, 8),
             (''Token.Text.Whitespace'', 8, 9)]
   \<and> tag_occurrences 12 (''# if'' @ [CHR 0x0A] @ ''if x:'' @ [CHR 0x0A]) (''Token.Keyword'', ''if'') 0
     = Some [(''Token.Keyword'', 2, 4), (''Token.Keyword'', 5, 7)]"
  by code_simp

lemma comment_example_tags:
  "apply_syntax_highlight True (\<lambda>l s. Some comment_tokens) 12
      (''# if'' @ [CHR 0x0A] @ ''if x:'') ''a.py''
     = Some [(''Token.Comment.Single'', 0, 4),
             (''Token.Text.Whitespace'', 4, 5), (''Token.Text.Whitespace'', 10, 11),
             (''Token.Keyword'', 2, 4), (''Token.Keyword'', 5, 7),
             (''Token.Text'', 1, 2), (''Token.Text'', 7, 8),
             (''Token.Name'', 8, 9), (''Token.Punctuation'', 9, 10),
             (''Token.Text.Whitespace'', 4, 5), (''Token.Text.Whitespace'', 10, 11)]"
  by code_simp

text \<open>
  The search loop for a token returns when the token's text is not empty and the bound on
  its turns exceeds what is left of the text: each turn moves the start of the search forward.
\<close>

lemma find_sub_bounds: "find_sub v s = Some p \<Longrightarrow> p + length v \<le> length s"
proof (induction s arbitrary: p)
  case Nil
  then show ?case by (simp split: if_splits)
next
  case (Cons c cs)
  show ?case
  proof (cases "startswith (c # cs) v")
    case True
    then have "length (take (length v) (c # cs)) = length v"
      by (simp add: startswith_def)
    then have "length v \<le> length (c # cs)"
      by simp
    then show ?thesis using Cons.prems True by simp
  next
    case False
    then obtain q where "find_sub v cs = Some q" "p = Suc q"
      using Cons.prems by auto
    then show ?thesis using Cons.IH by fastforce
  qed
qed

lemma search_bounds:
  "search buf v start = Some pos \<Longrightarrow> start \<le> pos \<and> pos + length v \<le> length buf"
  by (auto simp: search_def split: if_splits dest!: find_sub_bounds)

lemma tag_occurrences_returns:
  "snd tok \<noteq> [] \<Longrightarrow> length buf - start < fuel
     \<Longrightarrow> \<exists>calls. tag_occurrences fuel buf tok start = Some calls"
proof (induction fuel arbitrary: start)
  case 0
  then show ?case by simp
next
  case (Suc fuel)
  show ?case
  proof (cases "search buf (snd tok) start")
    case None
    then show ?thesis by simp
  next
    case (Some pos)
    then have b: "start \<le> pos" "pos + length (snd tok) \<le> length buf"
      by (auto dest: search_bounds)
    have "0 < length (snd tok)" using Suc.prems(1) by simp
    then have "length buf - (pos + length (snd tok)) < fuel"
      using b Suc.prems(2) by linarith
    then obtain calls where
      "tag_occurrences fuel buf tok (pos + length (snd tok)) = Some calls"
      using Suc.IH Suc.prems(1) by blast
    then show ?thesis using Some by (simp add: Let_def)
  qed
qed

end
